theory Spec2Isabelle
  imports Main "HOL-Library.Word"
begin

unbundle bit_operations_syntax

section \<open>JavaScript numbers and Node.js buffers\<close>

text \<open>
  The codec of \<^verbatim>\<open>src/ModubusRtu.ts\<close> works on Node.js \<^verbatim>\<open>Buffer\<close>s and JavaScript
  numbers. A buffer is a list of bytes. Every number the codec handles is an integer, so
  numbers are \<^typ>\<open>int\<close>. The failures of the code are values: each \<^verbatim>\<open>throw new Error(...)\<close>
  of the source is one constructor carrying the values interpolated into the message, and
  \<open>RangeError\<close> stands for the range errors thrown by the \<^verbatim>\<open>Buffer\<close> accessors
  (\<^verbatim>\<open>ERR_OUT_OF_RANGE\<close>, \<^verbatim>\<open>ERR_BUFFER_OUT_OF_BOUNDS\<close>).
\<close>

type_synonym byte = "8 word"
type_synonym buffer = "byte list"

datatype error =
    RangeError
  | CrcMismatch
  | UnitAddressMismatch int int
  | ModbusException int string
  | FunctionCodeMismatch int int

subsection \<open>Bitwise operators\<close>

text \<open>
  The operators \<^verbatim>\<open>^\<close>, \<^verbatim>\<open>&\<close>, \<^verbatim>\<open>|\<close> and \<^verbatim>\<open>>>\<close> convert their operands to signed 32-bit
  integers first; \<^verbatim>\<open>>>\<close> is the arithmetic shift, its count taken modulo 32.
\<close>

definition toInt32 :: "int \<Rightarrow> int" where
  "toInt32 x = signed_take_bit 31 x"

definition js_xor :: "int \<Rightarrow> int \<Rightarrow> int" where
  "js_xor a b = toInt32 a XOR toInt32 b"

definition js_and :: "int \<Rightarrow> int \<Rightarrow> int" where
  "js_and a b = toInt32 a AND toInt32 b"

definition js_or :: "int \<Rightarrow> int \<Rightarrow> int" where
  "js_or a b = toInt32 a OR toInt32 b"

definition js_shr :: "int \<Rightarrow> nat \<Rightarrow> int" where
  "js_shr a k = drop_bit (k mod 32) (toInt32 a)"

subsection \<open>Buffer accessors\<close>

text \<open>
  \<^verbatim>\<open>Buffer.alloc(n)\<close> is \<open>n\<close> zero bytes. The readers throw a range error when a byte
  they need lies outside the buffer (also at a negative offset). The writers check the
  value against the range of the field first and the offset second, and throw a range
  error for either. \<^verbatim>\<open>subarray(start, end)\<close> counts a negative index from the end of
  the buffer and clamps both indices to the buffer.
\<close>

definition alloc :: "nat \<Rightarrow> buffer" where
  "alloc n = replicate n 0"

definition readUInt8 :: "buffer \<Rightarrow> int \<Rightarrow> error + int" where
  "readUInt8 buf off =
     (if 0 \<le> off \<and> off < int (length buf) then Inr (uint (buf ! nat off))
      else Inl RangeError)"

definition readUInt16LE :: "buffer \<Rightarrow> int \<Rightarrow> error + int" where
  "readUInt16LE buf off =
     (if 0 \<le> off \<and> off + 1 < int (length buf)
      then Inr (uint (buf ! nat off) + uint (buf ! nat (off + 1)) * 2 ^ 8)
      else Inl RangeError)"

definition readUInt16BE :: "buffer \<Rightarrow> int \<Rightarrow> error + int" where
  "readUInt16BE buf off =
     (if 0 \<le> off \<and> off + 1 < int (length buf)
      then Inr (uint (buf ! nat off) * 2 ^ 8 + uint (buf ! nat (off + 1)))
      else Inl RangeError)"

definition writeUInt8 :: "buffer \<Rightarrow> int \<Rightarrow> int \<Rightarrow> error + buffer" where
  "writeUInt8 buf v off =
     (if v > 0xff \<or> v < 0 then Inl RangeError
      else if \<not> (0 \<le> off \<and> off < int (length buf)) then Inl RangeError
      else Inr (buf[nat off := word_of_int v]))"

definition writeUInt16BE :: "buffer \<Rightarrow> int \<Rightarrow> int \<Rightarrow> error + buffer" where
  "writeUInt16BE buf v off =
     (if v > 0xffff \<or> v < 0 then Inl RangeError
      else if \<not> (0 \<le> off \<and> off + 1 < int (length buf)) then Inl RangeError
      else Inr (buf[nat off := word_of_int (drop_bit 8 v), nat (off + 1) := word_of_int v]))"

definition writeUInt16LE :: "buffer \<Rightarrow> int \<Rightarrow> int \<Rightarrow> error + buffer" where
  "writeUInt16LE buf v off =
     (if v > 0xffff \<or> v < 0 then Inl RangeError
      else if \<not> (0 \<le> off \<and> off + 1 < int (length buf)) then Inl RangeError
      else Inr (buf[nat off := word_of_int v, nat (off + 1) := word_of_int (drop_bit 8 v)]))"

definition rel_index :: "int \<Rightarrow> nat \<Rightarrow> nat" where
  "rel_index k len = (if k < 0 then nat (max (int len + k) 0) else min (nat k) len)"

definition subarray :: "buffer \<Rightarrow> int \<Rightarrow> int \<Rightarrow> buffer" where
  "subarray buf start end =
     (let b = rel_index start (length buf); e = rel_index end (length buf)
      in take (e - b) (drop b buf))"

section \<open>The codec\<close>

definition modbusErrorMessages :: "string list" where
  "modbusErrorMessages =
     [''Unknown error'', ''Illegal function'', ''Illegal data address'',
      ''Illegal data value'', ''Slave device failure'', ''Acknowledge'',
      ''Slave device busy'', ''Memory Parity Error'']"

subsection \<open>crc16\<close>

text \<open>
  The inner loop of \<^verbatim>\<open>crc16\<close> runs \<open>j\<close> from 0 up to 8; the outer loop visits the bytes
  of the buffer in order.
\<close>

function crc16_inner :: "int \<Rightarrow> int \<Rightarrow> int" where
  "crc16_inner j crc =
     (if j < 8 then
        (let odd = js_and crc 0x0001;
             crc = js_shr crc 1;
             crc = (if odd \<noteq> 0 then js_xor crc 0xa001 else crc)
         in crc16_inner (j + 1) crc)
      else crc)"
  by pat_completeness auto
termination
  by (relation "measure (\<lambda>(j, crc). nat (8 - j))") auto

declare crc16_inner.simps [simp del]

primrec crc16_loop :: "buffer \<Rightarrow> int \<Rightarrow> int" where
  "crc16_loop [] crc = crc"
| "crc16_loop (b # bs) crc = crc16_loop bs (crc16_inner 0 (js_xor crc (uint b)))"

definition crc16 :: "buffer \<Rightarrow> int" where
  "crc16 buffer = crc16_loop buffer 0xffff"

subsection \<open>requestHoldingRegisters\<close>

definition requestHoldingRegisters :: "int \<Rightarrow> int \<Rightarrow> int \<Rightarrow> error + buffer" where
  "requestHoldingRegisters unitAddress firstRegister lastRegister =
     (let codeLength = 6;
          len = lastRegister - firstRegister + 1;
          buffer = alloc (codeLength + 2)
      in case writeUInt8 buffer unitAddress 0 of Inl e \<Rightarrow> Inl e | Inr buffer \<Rightarrow>
         (case writeUInt8 buffer 0x03 1 of Inl e \<Rightarrow> Inl e | Inr buffer \<Rightarrow>
         (case writeUInt16BE buffer firstRegister 2 of Inl e \<Rightarrow> Inl e | Inr buffer \<Rightarrow>
         (case writeUInt16BE buffer len 4 of Inl e \<Rightarrow> Inl e | Inr buffer \<Rightarrow>
          writeUInt16LE buffer (crc16 (subarray buffer 0 (- 2))) (int codeLength)))))"

subsection \<open>validateResponse\<close>

text \<open>
  \<^verbatim>\<open>modbusErrorMessages[errorCode] || 'Unknown error'\<close>: an index outside the table
  gives \<^verbatim>\<open>undefined\<close>, and \<^verbatim>\<open>||\<close> replaces \<^verbatim>\<open>undefined\<close> and the empty string.
\<close>

definition errorMessage :: "int \<Rightarrow> string" where
  "errorMessage errorCode =
     (if 0 \<le> errorCode \<and> errorCode < int (length modbusErrorMessages)
         \<and> modbusErrorMessages ! nat errorCode \<noteq> []
      then modbusErrorMessages ! nat errorCode
      else ''Unknown error'')"

definition validateResponse :: "int \<Rightarrow> int \<Rightarrow> buffer \<Rightarrow> error + unit" where
  "validateResponse unitAddress functionCode response =
     (case readUInt16LE response (int (length response) - 2) of
        Inl e \<Rightarrow> Inl e
      | Inr crc \<Rightarrow>
         (if crc \<noteq> crc16 (subarray response 0 (- 2)) then Inl CrcMismatch
          else (case readUInt8 response 0 of
             Inl e \<Rightarrow> Inl e
           | Inr addr \<Rightarrow>
              (if unitAddress \<noteq> addr then Inl (UnitAddressMismatch unitAddress addr)
               else (case readUInt8 response 1 of
                  Inl e \<Rightarrow> Inl e
                | Inr code \<Rightarrow>
                   (if length response \<ge> 5 \<and> code = js_or 0x80 functionCode
                    then (case readUInt8 response 2 of
                            Inl e \<Rightarrow> Inl e
                          | Inr errorCode \<Rightarrow>
                              Inl (ModbusException errorCode (errorMessage errorCode)))
                    else (if code \<noteq> functionCode
                          then Inl (FunctionCodeMismatch functionCode code)
                          else Inr ())))))))"

subsection \<open>fetchHoldingRegisters\<close>

function fetch_loop :: "buffer \<Rightarrow> int \<Rightarrow> int \<Rightarrow> int list \<Rightarrow> error + int list" where
  "fetch_loop response len i contents =
     (if i < len then
        (case readUInt16BE response (i + 3) of
           Inl e \<Rightarrow> Inl e
         | Inr reg \<Rightarrow> fetch_loop response len (i + 2) (contents @ [reg]))
      else Inr contents)"
  by pat_completeness auto
termination
  by (relation "measure (\<lambda>(response, len, i, contents). nat (len - i))") auto

declare fetch_loop.simps [simp del]

definition fetchHoldingRegisters :: "int \<Rightarrow> buffer \<Rightarrow> error + int list" where
  "fetchHoldingRegisters unitAddress response =
     (case validateResponse unitAddress 0x03 response of
        Inl e \<Rightarrow> Inl e
      | Inr u \<Rightarrow>
         (case readUInt8 response 2 of
            Inl e \<Rightarrow> Inl e
          | Inr len \<Rightarrow> fetch_loop response len 0 []))"

section \<open>The reference checksum\<close>

text \<open>
  The CRC-16 of Modbus as the specification words it, on a 16-bit accumulator: one step
  shifts the accumulator right by one bit and, when the bit shifted out was 1, XORs the
  polynomial \<open>0xA001\<close> in; a byte is XORed into the low byte of the accumulator and
  followed by 8 steps; the accumulator starts at \<open>0xFFFF\<close>. The definitions of the codec
  above do not use these; \<open>crc16\<close> is compared with them.
\<close>

definition spec_crc_shift :: "16 word \<Rightarrow> 16 word" where
  "spec_crc_shift acc =
     (let out = bit acc 0; acc' = drop_bit 1 acc
      in if out then acc' XOR 0xA001 else acc')"

definition spec_crc_byte :: "16 word \<Rightarrow> byte \<Rightarrow> 16 word" where
  "spec_crc_byte acc b = (spec_crc_shift ^^ 8) (acc XOR ucast b)"

definition spec_crc16 :: "byte list \<Rightarrow> 16 word" where
  "spec_crc16 bs = foldl spec_crc_byte 0xFFFF bs"

section \<open>The checksum engine computes on 16 bits\<close>

lemma toInt32_id: "0 \<le> x \<Longrightarrow> x < 2147483648 \<Longrightarrow> toInt32 x = x"
  unfolding toInt32_def by (rule signed_take_bit_int_eq_self) auto

lemma uint16_bound: "uint (w :: 16 word) < 65536"
  using uint_lt2p [of w] by simp

lemma uint8_bound: "uint (b :: 8 word) < 256"
  using uint_lt2p [of b] by simp

lemma toInt32_uint16: "toInt32 (uint (w :: 16 word)) = uint w"
  using uint16_bound [of w] by (intro toInt32_id) simp_all

lemma toInt32_uint8: "toInt32 (uint (w :: 8 word)) = uint w"
  using uint8_bound [of w] by (intro toInt32_id) simp_all

lemma js_and_1_word: "js_and (uint (w :: 16 word)) 1 = (if bit w 0 then 1 else 0)"
proof -
  have "odd (uint w) = bit w 0"
    by (simp add: bit_uint_iff flip: bit_0)
  then show ?thesis
    by (simp add: js_and_def toInt32_uint16 toInt32_id and_one_eq mod_2_eq_odd)
qed

lemma js_shr_1_word: "js_shr (uint (w :: 16 word)) (Suc 0) = uint (drop_bit (Suc 0) w)"
proof -
  have "uint w mod 65536 = uint w"
    using uint16_bound [of w] by simp
  then show ?thesis
    by (simp add: js_shr_def toInt32_uint16 unsigned_drop_bit_eq take_bit_eq_mod)
qed

lemma js_xor_poly_word: "js_xor (uint (w :: 16 word)) 0xa001 = uint (w XOR 0xA001)"
  by (simp add: js_xor_def toInt32_uint16 toInt32_id uint_xor)

lemma js_xor_byte_word:
  "js_xor (uint (w :: 16 word)) (uint (b :: 8 word)) = uint (w XOR ucast b)"
  by (simp add: js_xor_def toInt32_uint16 toInt32_uint8 uint_xor uint_up_ucast is_up)

text \<open>
  From iteration \<open>j\<close> on, the inner loop performs the remaining \<open>8 - j\<close> steps of the
  reference on the same 16 bits.
\<close>

lemma crc16_inner_word:
  "0 \<le> j \<Longrightarrow> j \<le> 8 \<Longrightarrow>
   crc16_inner j (uint (w :: 16 word)) = uint ((spec_crc_shift ^^ nat (8 - j)) w)"
proof (induction "nat (8 - j)" arbitrary: j w)
  case 0
  then have "j = 8" by simp
  then show ?case by (simp add: crc16_inner.simps)
next
  case (Suc n)
  then have j: "j < 8" and n: "n = nat (8 - (j + 1))" by simp_all
  have "nat (8 - j) = Suc (nat (8 - (j + 1)))" using j by simp
  then have pow: "(spec_crc_shift ^^ nat (8 - j)) w
      = (spec_crc_shift ^^ nat (8 - (j + 1))) (spec_crc_shift w)"
    by (simp add: funpow_swap1)
  have "crc16_inner j (uint w) = crc16_inner (j + 1) (uint (spec_crc_shift w))"
    using j
    by (subst crc16_inner.simps)
      (simp add: js_and_1_word js_shr_1_word js_xor_poly_word spec_crc_shift_def Let_def)
  also have "\<dots> = uint ((spec_crc_shift ^^ nat (8 - (j + 1))) (spec_crc_shift w))"
    using Suc.hyps(1) [OF n] Suc.prems j by simp
  finally show ?case using pow by simp
qed

lemma crc16_loop_word:
  "crc16_loop bs (uint (w :: 16 word)) = uint (foldl spec_crc_byte w bs)"
proof (induction bs arbitrary: w)
  case Nil
  show ?case by simp
next
  case (Cons b bs)
  have "crc16_inner 0 (js_xor (uint w) (uint b)) = uint (spec_crc_byte w b)"
    using crc16_inner_word [of 0 "w XOR ucast b"]
    by (simp add: js_xor_byte_word spec_crc_byte_def)
  then show ?case using Cons.IH by simp
qed

lemma crc16_as_word: "crc16 bs = uint (foldl spec_crc_byte 0xFFFF bs)"
  using crc16_loop_word [of bs "0xFFFF"] by (simp add: crc16_def)

lemma crc16_range: "0 \<le> crc16 bs \<and> crc16 bs < 65536"
  by (simp add: crc16_as_word uint16_bound)

section \<open>Buffers and validation\<close>

lemma u16_split: "0 \<le> v \<Longrightarrow> v < 65536 \<Longrightarrow>
   uint (word_of_int v :: byte) + uint (word_of_int (drop_bit 8 v) :: byte) * 2 ^ 8 = v"
proof -
  assume v: "0 \<le> v" "v < 65536"
  have "v div 256 < 256" using v by simp
  moreover have "0 \<le> v div 256" using v by simp
  ultimately have "v div 256 mod 256 = v div 256" by simp
  then show ?thesis
    by (simp add: uint_word_of_int_eq take_bit_eq_mod drop_bit_eq_div)
qed

lemma write_read_UInt16LE:
  assumes "0 \<le> v" "v < 65536" "0 \<le> off" "off + 1 < int (length buf)"
  shows "\<exists>buf'. writeUInt16LE buf v off = Inr buf' \<and> length buf' = length buf
           \<and> readUInt16LE buf' off = Inr v"
proof -
  have ne: "nat off \<noteq> nat (off + 1)" using assms by simp
  have l1: "nat off < length buf" and l2: "nat (off + 1) < length buf" using assms by simp_all
  show ?thesis
    using assms ne l1 l2 u16_split [of v]
    by (simp add: writeUInt16LE_def readUInt16LE_def)
qed

lemma subarray_crc: "2 \<le> length r \<Longrightarrow> subarray r 0 (- 2) = take (length r - 2) r"
  by (simp add: subarray_def rel_index_def Let_def nat_diff_distrib numeral_2_eq_2)

lemma readUInt16LE_tail:
  "2 \<le> length r \<Longrightarrow> readUInt16LE r (int (length r) - 2)
     = Inr (uint (r ! (length r - 2)) + uint (r ! (length r - 1)) * 2 ^ 8)"
proof -
  assume len: "2 \<le> length r"
  then have a: "nat (int (length r) - 2) = length r - 2"
    and b: "nat (int (length r) - 1) = length r - 1"
    by (simp_all add: nat_diff_distrib)
  show ?thesis using len by (simp add: readUInt16LE_def a b del: One_nat_def)
qed

lemma readUInt16LE_short: "length r < 2 \<Longrightarrow> readUInt16LE r (int (length r) - 2) = Inl RangeError"
  by (simp add: readUInt16LE_def)

lemma js_or_exception: "js_or 0x80 0x03 = 0x83"
  by (simp add: js_or_def toInt32_id)

lemma errorMessage_table:
  "errorMessage c =
     (if c = 0 then ''Unknown error'' else if c = 1 then ''Illegal function''
      else if c = 2 then ''Illegal data address'' else if c = 3 then ''Illegal data value''
      else if c = 4 then ''Slave device failure'' else if c = 5 then ''Acknowledge''
      else if c = 6 then ''Slave device busy'' else if c = 7 then ''Memory Parity Error''
      else ''Unknown error'')"
proof -
  consider "c < 0" | "c = 0" | "c = 1" | "c = 2" | "c = 3" | "c = 4" | "c = 5" | "c = 6"
    | "c = 7" | "c \<ge> 8" by linarith
  then show ?thesis
    by cases (simp_all add: errorMessage_def modbusErrorMessages_def)
qed

lemma validateResponse_cases:
  assumes "2 \<le> length r"
  shows "validateResponse ua 0x03 r =
     (if uint (r ! (length r - 2)) + uint (r ! (length r - 1)) * 2 ^ 8
           \<noteq> crc16 (take (length r - 2) r) then Inl CrcMismatch
      else if ua \<noteq> uint (r ! 0) then Inl (UnitAddressMismatch ua (uint (r ! 0)))
      else if 5 \<le> length r \<and> uint (r ! 1) = 0x83
        then Inl (ModbusException (uint (r ! 2)) (errorMessage (uint (r ! 2))))
      else if uint (r ! 1) \<noteq> 0x03 then Inl (FunctionCodeMismatch 0x03 (uint (r ! 1)))
      else Inr ())"
proof -
  have r0: "readUInt8 r 0 = Inr (uint (r ! 0))"
    and r1: "readUInt8 r 1 = Inr (uint (r ! 1))"
    using assms by (auto simp add: readUInt8_def)
  have r2: "5 \<le> length r \<Longrightarrow> readUInt8 r 2 = Inr (uint (r ! 2))"
    by (simp add: readUInt8_def)
  show ?thesis
    unfolding validateResponse_def readUInt16LE_tail [OF assms] subarray_crc [OF assms]
      r0 r1 js_or_exception
    by (simp add: r2 del: One_nat_def)
qed

lemma validateResponse_short:
  "length r < 2 \<Longrightarrow> validateResponse ua fc r = Inl RangeError"
  by (simp add: validateResponse_def readUInt16LE_short)

lemma readUInt16BE_in:
  "0 \<le> off \<Longrightarrow> off + 2 \<le> int (length r) \<Longrightarrow>
   readUInt16BE r off = Inr (uint (r ! nat off) * 2 ^ 8 + uint (r ! (nat off + 1)))"
  by (simp add: readUInt16BE_def nat_add_distrib)

lemma readUInt16BE_out:
  "int (length r) < off + 2 \<Longrightarrow> readUInt16BE r off = Inl RangeError"
  by (simp add: readUInt16BE_def)

lemma readUInt16BE_error: "readUInt16BE r off = Inl e \<Longrightarrow> e = RangeError"
  by (simp add: readUInt16BE_def split: if_splits)

lemma fetch_loop_ok:
  assumes "0 \<le> i" and "len - i \<le> 2 * int n"
    and "0 < n \<longrightarrow> 2 * int n < len - i + 2"
    and "0 < n \<longrightarrow> i + 2 * int n + 3 \<le> int (length r)"
  shows "fetch_loop r len i acc =
     Inr (acc @ map (\<lambda>k. uint (r ! (nat i + 3 + 2 * k)) * 2 ^ 8
                          + uint (r ! (nat i + 4 + 2 * k))) [0..<n])"
  using assms
proof (induction n arbitrary: i acc)
  case 0
  then have "\<not> i < len" by simp
  then show ?case by (subst fetch_loop.simps) simp
next
  case (Suc n)
  from Suc.prems have lt: "i < len" by simp
  have rd: "readUInt16BE r (i + 3)
      = Inr (uint (r ! (nat i + 3)) * 2 ^ 8 + uint (r ! (nat i + 4)))"
  proof -
    have "nat (i + 3) = nat i + 3" "nat i + 3 + 1 = nat i + 4"
      using Suc.prems by simp_all
    moreover have "readUInt16BE r (i + 3)
      = Inr (uint (r ! nat (i + 3)) * 2 ^ 8 + uint (r ! (nat (i + 3) + 1)))"
      using Suc.prems by (intro readUInt16BE_in) auto
    ultimately show ?thesis by (simp add: add.commute)
  qed
  have step: "fetch_loop r len i acc
      = fetch_loop r len (i + 2)
          (acc @ [uint (r ! (nat i + 3)) * 2 ^ 8 + uint (r ! (nat i + 4))])"
    using lt by (subst fetch_loop.simps) (simp add: rd)
  have ih: "fetch_loop r len (i + 2) acc' =
     Inr (acc' @ map (\<lambda>k. uint (r ! (nat (i + 2) + 3 + 2 * k)) * 2 ^ 8
                          + uint (r ! (nat (i + 2) + 4 + 2 * k))) [0..<n])" for acc'
    using Suc.prems by (intro Suc.IH) auto
  have idx: "nat (i + 2) = nat i + 2" using Suc.prems by simp
  have "[0..<Suc n] = 0 # map Suc [0..<n]"
    by (simp add: upt_conv_Cons map_Suc_upt del: upt_Suc)
  then have "map (\<lambda>k. uint (r ! (nat i + 3 + 2 * k)) * 2 ^ 8
                          + uint (r ! (nat i + 4 + 2 * k))) [0..<Suc n]
     = (uint (r ! (nat i + 3)) * 2 ^ 8 + uint (r ! (nat i + 4)))
       # map (\<lambda>k. uint (r ! (nat (i + 2) + 3 + 2 * k)) * 2 ^ 8
                          + uint (r ! (nat (i + 2) + 4 + 2 * k))) [0..<n]"
    by (simp add: idx comp_def ac_simps del: upt_Suc)
  then show ?case unfolding step ih by simp
qed

lemma fetch_loop_fail:
  assumes "0 \<le> i" and "i + 2 * int k < len" and "int (length r) < i + 2 * int k + 5"
  shows "fetch_loop r len i acc = Inl RangeError"
  using assms
proof (induction k arbitrary: i acc)
  case 0
  then have "readUInt16BE r (i + 3) = Inl RangeError"
    by (intro readUInt16BE_out) simp
  with 0 show ?case by (subst fetch_loop.simps) simp
next
  case (Suc k)
  then have lt: "i < len" by simp
  show ?case
  proof (cases "readUInt16BE r (i + 3)")
    case (Inl e)
    then have "e = RangeError" by (rule readUInt16BE_error)
    with Inl lt show ?thesis by (subst fetch_loop.simps) simp
  next
    case (Inr reg)
    have "fetch_loop r len (i + 2) (acc @ [reg]) = Inl RangeError"
      using Suc.prems by (intro Suc.IH) auto
    with Inr lt show ?thesis by (subst fetch_loop.simps) simp
  qed
qed

lemma fetch_invalid:
  "validateResponse ua 0x03 r = Inl e \<Longrightarrow> fetchHoldingRegisters ua r = Inl e"
  by (simp add: fetchHoldingRegisters_def)

lemma fetch_valid:
  "validateResponse ua 0x03 r = Inr u \<Longrightarrow> 3 \<le> length r \<Longrightarrow>
   fetchHoldingRegisters ua r = fetch_loop r (uint (r ! 2)) 0 []"
  by (simp add: fetchHoldingRegisters_def readUInt8_def)

lemma readUInt16LE_Inr_length: "readUInt16LE r (int (length r) - 2) = Inr c \<Longrightarrow> 2 \<le> length r"
  by (simp add: readUInt16LE_def split: if_splits)

lemma stored_crc:
  "readUInt16LE r (int (length r) - 2) = Inr c \<Longrightarrow>
   uint (r ! (length r - 2)) + uint (r ! (length r - 1)) * 2 ^ 8 = c"
  using readUInt16LE_tail [of r] readUInt16LE_Inr_length [of r c] by simp

lemma be16_word:
  "uint (ucast (drop_bit 8 x) :: byte) * 2 ^ 8 + uint (ucast x :: byte) = uint (x :: 16 word)"
proof -
  have b: "0 \<le> uint x" "uint x < 65536" using uint16_bound [of x] by simp_all
  then have "uint x div 256 < 256" "0 \<le> uint x div 256"
    by (simp_all add: div_int_pos_iff)
  then have hi: "uint x div 256 mod 256 = uint x div 256" by simp
  have "uint (drop_bit 8 x) = uint x div 256"
    by (simp add: drop_bit_eq_div uint_div)
  then show ?thesis
    by (simp add: unsigned_ucast_eq take_bit_eq_mod hi)
qed

lemma length_register_bytes:
  "length (concat (map (\<lambda>x :: 16 word. [ucast (drop_bit 8 x), ucast x :: byte]) regs))
     = 2 * length regs"
  by (induction regs) simp_all

lemma nth_register_bytes:
  "k < length regs \<Longrightarrow>
   concat (map (\<lambda>x :: 16 word. [ucast (drop_bit 8 x), ucast x :: byte]) regs) ! (2 * k)
     = ucast (drop_bit 8 (regs ! k))
   \<and> concat (map (\<lambda>x :: 16 word. [ucast (drop_bit 8 x), ucast x :: byte]) regs) ! (2 * k + 1)
     = ucast (regs ! k)"
proof (induction regs arbitrary: k)
  case Nil
  then show ?case by simp
next
  case (Cons x regs)
  show ?case
  proof (cases k)
    case 0
    then show ?thesis by simp
  next
    case (Suc j)
    with Cons.prems have "j < length regs" by simp
    from Cons.IH [OF this] Suc show ?thesis by simp
  qed
qed

lemma xor_cancel_right:
  fixes a b c :: "16 word"
  assumes "a XOR c = b XOR c"
  shows "a = b"
proof -
  have "a = (a XOR c) XOR c" by (simp add: xor.assoc)
  also have "\<dots> = (b XOR c) XOR c" using assms by simp
  also have "\<dots> = b" by (simp add: xor.assoc)
  finally show ?thesis .
qed

lemma xor_cancel_left:
  fixes a b c :: "16 word"
  assumes "c XOR a = c XOR b"
  shows "a = b"
  using assms xor_cancel_right [of a c b] by (simp add: xor.commute)

lemma spec_crc_shift_top: "bit (spec_crc_shift w) 15 \<longleftrightarrow> bit w 0"
proof -
  have "\<not> bit w 16" by (auto dest: bit_imp_le_length)
  then show ?thesis
    by (simp add: spec_crc_shift_def Let_def bit_simps)
qed

lemma spec_crc_shift_inj:
  assumes "spec_crc_shift a = spec_crc_shift b"
  shows "a = b"
proof -
  have b0: "bit a 0 = bit b 0"
    using assms spec_crc_shift_top [of a] spec_crc_shift_top [of b] by simp
  have "drop_bit 1 a XOR (if bit a 0 then 0xA001 else 0)
      = drop_bit 1 b XOR (if bit b 0 then 0xA001 else 0)"
    using assms by (simp add: spec_crc_shift_def Let_def split: if_splits)
  then have d: "drop_bit 1 a = drop_bit 1 b"
    using b0 by (auto split: if_splits dest: xor_cancel_right)
  show ?thesis
  proof (rule bit_word_eqI)
    fix n
    assume "n < LENGTH(16)"
    show "bit a n \<longleftrightarrow> bit b n"
    proof (cases n)
      case 0
      then show ?thesis using b0 by simp
    next
      case (Suc m)
      have "bit (drop_bit 1 a) m = bit (drop_bit 1 b) m" using d by simp
      then show ?thesis using Suc by (simp add: bit_drop_bit_eq)
    qed
  qed
qed

lemma spec_crc_shift_funpow_inj:
  "(spec_crc_shift ^^ n) a = (spec_crc_shift ^^ n) b \<Longrightarrow> a = b"
  by (induction n) (auto dest: spec_crc_shift_inj)

lemma ucast_byte_inj: "(ucast (x :: byte) :: 16 word) = ucast y \<Longrightarrow> x = y"
  by (simp add: word_uint_eq_iff uint_up_ucast is_up)

lemma spec_crc_byte_inj_acc: "spec_crc_byte a x = spec_crc_byte b x \<Longrightarrow> a = b"
  unfolding spec_crc_byte_def
  by (drule spec_crc_shift_funpow_inj) (rule xor_cancel_right)

lemma spec_crc_byte_inj_byte: "spec_crc_byte a x = spec_crc_byte a y \<Longrightarrow> x = y"
  unfolding spec_crc_byte_def
  by (drule spec_crc_shift_funpow_inj) (blast dest: xor_cancel_left ucast_byte_inj)

lemma foldl_crc_inj: "foldl spec_crc_byte a bs = foldl spec_crc_byte b bs \<Longrightarrow> a = b"
  by (induction bs arbitrary: a b) (auto dest: spec_crc_byte_inj_acc)

lemma crc16_single_byte:
  assumes "crc16 (pre @ x # post) = crc16 (pre @ y # post)"
  shows "x = y"
proof -
  have "foldl spec_crc_byte 0xFFFF (pre @ x # post) = foldl spec_crc_byte 0xFFFF (pre @ y # post)"
    using assms by (simp only: crc16_as_word word_uint_eq_iff)
  then have "spec_crc_byte (foldl spec_crc_byte 0xFFFF pre) x
      = spec_crc_byte (foldl spec_crc_byte 0xFFFF pre) y"
    by (simp add: foldl_crc_inj)
  then show ?thesis by (rule spec_crc_byte_inj_byte)
qed

lemma crc16_update:
  assumes "i < length bs" and "v \<noteq> bs ! i"
  shows "crc16 (bs[i := v]) \<noteq> crc16 bs"
proof
  assume eq: "crc16 (bs[i := v]) = crc16 bs"
  have "bs[i := v] = take i bs @ v # drop (Suc i) bs"
    using assms(1) by (rule upd_conv_take_nth_drop)
  moreover have "bs = take i bs @ bs ! i # drop (Suc i) bs"
    using assms(1) by (rule id_take_nth_drop)
  ultimately have "crc16 (take i bs @ v # drop (Suc i) bs)
      = crc16 (take i bs @ bs ! i # drop (Suc i) bs)"
    using eq by simp
  then have "v = bs ! i" by (rule crc16_single_byte)
  with assms(2) show False by simp
qed

lemma uint_byte_of_int: "0 \<le> v \<Longrightarrow> v \<le> 0xFF \<Longrightarrow> uint (word_of_int v :: byte) = v"
  by (simp add: uint_word_of_int_eq take_bit_eq_mod)

lemma u16_split_be: "0 \<le> v \<Longrightarrow> v \<le> 0xFFFF \<Longrightarrow>
   uint (word_of_int (drop_bit 8 v) :: byte) * 2 ^ 8 + uint (word_of_int v :: byte) = v"
  using u16_split [of v] by simp

lemma request_frame:
  assumes "0 \<le> ua" "ua \<le> 0xFF" "0 \<le> a" "a \<le> 0xFFFF"
    and "0 \<le> b - a + 1" "b - a + 1 \<le> 0xFFFF"
    and "hdr = [word_of_int ua, 0x03, word_of_int (drop_bit 8 a), word_of_int a,
                word_of_int (drop_bit 8 (b - a + 1)), word_of_int (b - a + 1)]"
  shows "requestHoldingRegisters ua a b
     = Inr (hdr @ [word_of_int (crc16 hdr), word_of_int (drop_bit 8 (crc16 hdr))])"
proof -
  have c: "0 \<le> crc16 hdr" "crc16 hdr \<le> 0xFFFF"
    using crc16_range [of hdr] by simp_all
  have sub: "subarray (hdr @ [0, 0]) 0 (- 2) = hdr"
    using assms(7) by (simp add: subarray_def rel_index_def)
  have w0: "writeUInt8 (alloc (6 + 2)) ua 0 = Inr [word_of_int ua, 0, 0, 0, 0, 0, 0, 0]"
    using assms(1,2) by (simp add: writeUInt8_def alloc_def numeral_eq_Suc)
  have w1: "writeUInt8 [word_of_int ua, 0, 0, 0, 0, 0, 0, 0] 0x03 1
      = Inr [word_of_int ua, 0x03, 0, 0, 0, 0, 0, 0]"
    by (simp add: writeUInt8_def)
  have w2: "writeUInt16BE [word_of_int ua, 0x03, 0, 0, 0, 0, 0, 0] a 2
      = Inr [word_of_int ua, 0x03, word_of_int (drop_bit 8 a), word_of_int a, 0, 0, 0, 0]"
    using assms(3,4) by (simp add: writeUInt16BE_def numeral_eq_Suc)
  have w3: "writeUInt16BE
        [word_of_int ua, 0x03, word_of_int (drop_bit 8 a), word_of_int a, 0, 0, 0, 0]
        (b - a + 1) 4
      = Inr (hdr @ [0, 0])"
    using assms(5,6) by (simp add: writeUInt16BE_def numeral_eq_Suc assms(7))
  have w4: "writeUInt16LE (hdr @ [0, 0]) (crc16 hdr) (int 6)
      = Inr (hdr @ [word_of_int (crc16 hdr), word_of_int (drop_bit 8 (crc16 hdr))])"
    using c by (simp add: writeUInt16LE_def numeral_eq_Suc assms(7))
  show ?thesis
    unfolding requestHoldingRegisters_def Let_def
    by (simp only: w0 w1 w2 w3 w4 sub sum.case)
qed

lemma request_count_overflow:
  "0xFFFF < b - a + 1 \<Longrightarrow> requestHoldingRegisters ua a b = Inl RangeError"
  by (simp add: requestHoldingRegisters_def Let_def writeUInt8_def writeUInt16BE_def
      alloc_def split: sum.splits)

section \<open>Claims about the checksum engine\<close>

text \<open>
  C1. For every byte sequence, \<open>crc16\<close> returns the value of the reference CRC-16 of
  Modbus (accumulator \<open>0xFFFF\<close> at the start, each byte XORed into the low byte, then 8
  right shifts, each followed by an XOR with \<open>0xA001\<close> when the bit shifted out was 1).
  On the test vector \<open>01 03 00 00 00 0A\<close> the value is \<open>0xCDC5\<close>.
\<close>

theorem crc16_reference:
  "crc16 bs = uint (spec_crc16 bs)
   \<and> crc16 [0x01, 0x03, 0x00, 0x00, 0x00, 0x0A] = 0xCDC5"
proof
  show "crc16 bs = uint (spec_crc16 bs)"
    using crc16_loop_word [of bs "0xFFFF"] by (simp add: crc16_def spec_crc16_def)
  show "crc16 [0x01, 0x03, 0x00, 0x00, 0x00, 0x0A] = 0xCDC5"
    by code_simp
qed

text \<open>
  C10. For every byte sequence the value of \<open>crc16\<close> lies between 0 and \<open>0xFFFF\<close>, so a
  16-bit little-endian write of it at any offset inside a buffer succeeds, and reading
  the field back gives the same value: nothing is truncated.
\<close>

theorem crc16_fits_u16:
  "0 \<le> crc16 bs \<and> crc16 bs \<le> 0xFFFF
   \<and> (\<forall>buf off. 0 \<le> off \<and> off + 1 < int (length buf) \<longrightarrow>
         (\<exists>buf'. writeUInt16LE buf (crc16 bs) off = Inr buf'
                \<and> readUInt16LE buf' off = Inr (crc16 bs)))"
proof -
  have rng: "0 \<le> crc16 bs" "crc16 bs < 65536"
    using crc16_range [of bs] by simp_all
  have "\<exists>buf'. writeUInt16LE buf (crc16 bs) off = Inr buf'
                \<and> readUInt16LE buf' off = Inr (crc16 bs)"
    if "0 \<le> off" "off + 1 < int (length buf)" for buf off
    using write_read_UInt16LE [OF rng that] by blast
  then show ?thesis using rng by auto
qed

theorem crc16_fits_u16_witness:
  "(0::int) \<le> 6 \<and> (6::int) + 1 < int (length (alloc 8))
   \<and> (\<exists>buf'. writeUInt16LE (alloc 8) (crc16 [0x01, 0x03, 0x00, 0x00, 0x00, 0x0A]) 6 = Inr buf'
             \<and> readUInt16LE buf' 6 = Inr (crc16 [0x01, 0x03, 0x00, 0x00, 0x00, 0x0A]))"
proof -
  have h: "(0::int) \<le> 6 \<and> (6::int) + 1 < int (length (alloc 8))"
    by (simp add: alloc_def)
  from crc16_fits_u16 [of "[0x01, 0x03, 0x00, 0x00, 0x00, 0x0A]"] h
  show ?thesis by blast
qed

section \<open>Claims about the response validator and decoder\<close>

text \<open>
  C4. \<open>fetchHoldingRegisters\<close> validates in the order checksum, unit address, exception
  flag, function code and stops at the first failure: a frame whose stored checksum
  differs from the computed one fails with \<open>CrcMismatch\<close> whatever its other bytes are; a
  frame with a valid checksum whose byte 0 differs from the unit address fails with
  \<open>UnitAddressMismatch\<close> whatever its function-code byte is; with both valid, an
  exception frame fails with \<open>ModbusException\<close>, and any other frame whose byte 1 is
  not \<open>0x03\<close> fails with \<open>FunctionCodeMismatch\<close>.
\<close>

theorem validation_order:
  "(\<forall>c. readUInt16LE r (int (length r) - 2) = Inr c \<and> c \<noteq> crc16 (subarray r 0 (- 2))
        \<longrightarrow> fetchHoldingRegisters ua r = Inl CrcMismatch)
   \<and> (readUInt16LE r (int (length r) - 2) = Inr (crc16 (subarray r 0 (- 2)))
        \<and> uint (r ! 0) \<noteq> ua
        \<longrightarrow> fetchHoldingRegisters ua r = Inl (UnitAddressMismatch ua (uint (r ! 0))))
   \<and> (readUInt16LE r (int (length r) - 2) = Inr (crc16 (subarray r 0 (- 2)))
        \<and> uint (r ! 0) = ua \<and> 5 \<le> length r \<and> r ! 1 = 0x83
        \<longrightarrow> fetchHoldingRegisters ua r
            = Inl (ModbusException (uint (r ! 2)) (errorMessage (uint (r ! 2)))))
   \<and> (readUInt16LE r (int (length r) - 2) = Inr (crc16 (subarray r 0 (- 2)))
        \<and> uint (r ! 0) = ua \<and> \<not> (5 \<le> length r \<and> r ! 1 = 0x83) \<and> r ! 1 \<noteq> 0x03
        \<longrightarrow> fetchHoldingRegisters ua r = Inl (FunctionCodeMismatch 0x03 (uint (r ! 1))))"
proof -
  have code83: "uint (r ! 1) = 0x83 \<longleftrightarrow> r ! 1 = 0x83"
    by (simp add: word_uint_eq_iff)
  have code03: "uint (r ! 1) = 0x03 \<longleftrightarrow> r ! 1 = 0x03"
    by (simp add: word_uint_eq_iff)
  have v: "validateResponse ua 0x03 r =
     (if c \<noteq> crc16 (subarray r 0 (- 2)) then Inl CrcMismatch
      else if ua \<noteq> uint (r ! 0) then Inl (UnitAddressMismatch ua (uint (r ! 0)))
      else if 5 \<le> length r \<and> r ! 1 = 0x83
        then Inl (ModbusException (uint (r ! 2)) (errorMessage (uint (r ! 2))))
      else if r ! 1 \<noteq> 0x03 then Inl (FunctionCodeMismatch 0x03 (uint (r ! 1)))
      else Inr ())"
    if "readUInt16LE r (int (length r) - 2) = Inr c" for c
  proof -
    have len: "2 \<le> length r" using that by (rule readUInt16LE_Inr_length)
    show ?thesis
      unfolding validateResponse_cases [OF len] stored_crc [OF that] subarray_crc [OF len]
        code83 code03 ..
  qed
  have 1: "fetchHoldingRegisters ua r = Inl CrcMismatch"
    if "readUInt16LE r (int (length r) - 2) = Inr c" "c \<noteq> crc16 (subarray r 0 (- 2))" for c
    using v [OF that(1)] that(2) by (intro fetch_invalid) simp
  have 2: "fetchHoldingRegisters ua r = Inl (UnitAddressMismatch ua (uint (r ! 0)))"
    if "readUInt16LE r (int (length r) - 2) = Inr (crc16 (subarray r 0 (- 2)))"
      "uint (r ! 0) \<noteq> ua"
    using v [OF that(1)] that(2) by (intro fetch_invalid) auto
  have 3: "fetchHoldingRegisters ua r
      = Inl (ModbusException (uint (r ! 2)) (errorMessage (uint (r ! 2))))"
    if "readUInt16LE r (int (length r) - 2) = Inr (crc16 (subarray r 0 (- 2)))"
      "uint (r ! 0) = ua" "5 \<le> length r" "r ! 1 = 0x83"
    using v [OF that(1)] that(2-) by (intro fetch_invalid) auto
  have 4: "fetchHoldingRegisters ua r = Inl (FunctionCodeMismatch 0x03 (uint (r ! 1)))"
    if "readUInt16LE r (int (length r) - 2) = Inr (crc16 (subarray r 0 (- 2)))"
      "uint (r ! 0) = ua" "\<not> (5 \<le> length r \<and> r ! 1 = 0x83)" "r ! 1 \<noteq> 0x03"
    using v [OF that(1)] that(2-) by (intro fetch_invalid) auto
  from 1 2 3 4 show ?thesis by blast
qed

theorem validation_order_witness:
  "(readUInt16LE [2, 0x83, 2, 0, 0] (int (length [2, 0x83, 2, 0, 0 :: byte]) - 2) = Inr 0
    \<and> 0 \<noteq> crc16 (subarray [2, 0x83, 2, 0, 0] 0 (- 2))
    \<and> fetchHoldingRegisters 1 [2, 0x83, 2, 0, 0] = Inl CrcMismatch)
   \<and> (readUInt16LE [2, 3, 0, 208, 240] (int (length [2, 3, 0, 208, 240 :: byte]) - 2)
         = Inr (crc16 (subarray [2, 3, 0, 208, 240] 0 (- 2)))
    \<and> uint ([2, 3, 0, 208, 240 :: byte] ! 0) \<noteq> 1
    \<and> fetchHoldingRegisters 1 [2, 3, 0, 208, 240]
         = Inl (UnitAddressMismatch 1 (uint ([2, 3, 0, 208, 240 :: byte] ! 0))))
   \<and> (readUInt16LE [1, 0x83, 2, 192, 241] (int (length [1, 0x83, 2, 192, 241 :: byte]) - 2)
         = Inr (crc16 (subarray [1, 0x83, 2, 192, 241] 0 (- 2)))
    \<and> uint ([1, 0x83, 2, 192, 241 :: byte] ! 0) = 1
    \<and> 5 \<le> length [1, 0x83, 2, 192, 241 :: byte]
    \<and> [1, 0x83, 2, 192, 241 :: byte] ! 1 = 0x83
    \<and> fetchHoldingRegisters 1 [1, 0x83, 2, 192, 241]
         = Inl (ModbusException (uint ([1, 0x83, 2, 192, 241 :: byte] ! 2))
                  (errorMessage (uint ([1, 0x83, 2, 192, 241 :: byte] ! 2)))))
   \<and> (readUInt16LE [1, 5, 0, 35, 80] (int (length [1, 5, 0, 35, 80 :: byte]) - 2)
         = Inr (crc16 (subarray [1, 5, 0, 35, 80] 0 (- 2)))
    \<and> uint ([1, 5, 0, 35, 80 :: byte] ! 0) = 1
    \<and> \<not> (5 \<le> length [1, 5, 0, 35, 80 :: byte] \<and> [1, 5, 0, 35, 80 :: byte] ! 1 = 0x83)
    \<and> [1, 5, 0, 35, 80 :: byte] ! 1 \<noteq> 0x03
    \<and> fetchHoldingRegisters 1 [1, 5, 0, 35, 80]
         = Inl (FunctionCodeMismatch 0x03 (uint ([1, 5, 0, 35, 80 :: byte] ! 1))))"
proof -
  have a1: "readUInt16LE [2, 0x83, 2, 0, 0] (int (length [2, 0x83, 2, 0, 0 :: byte]) - 2) = Inr 0"
    by code_simp
  have a2: "0 \<noteq> crc16 (subarray [2, 0x83, 2, 0, 0] 0 (- 2))"
    by code_simp
  have b1: "readUInt16LE [2, 3, 0, 208, 240] (int (length [2, 3, 0, 208, 240 :: byte]) - 2)
         = Inr (crc16 (subarray [2, 3, 0, 208, 240] 0 (- 2)))"
    by code_simp
  have b2: "uint ([2, 3, 0, 208, 240 :: byte] ! 0) \<noteq> 1"
    by simp
  have c1: "readUInt16LE [1, 0x83, 2, 192, 241] (int (length [1, 0x83, 2, 192, 241 :: byte]) - 2)
         = Inr (crc16 (subarray [1, 0x83, 2, 192, 241] 0 (- 2)))"
    by code_simp
  have c2: "uint ([1, 0x83, 2, 192, 241 :: byte] ! 0) = 1"
    "5 \<le> length [1, 0x83, 2, 192, 241 :: byte]" "[1, 0x83, 2, 192, 241 :: byte] ! 1 = 0x83"
    by simp_all
  have d1: "readUInt16LE [1, 5, 0, 35, 80] (int (length [1, 5, 0, 35, 80 :: byte]) - 2)
         = Inr (crc16 (subarray [1, 5, 0, 35, 80] 0 (- 2)))"
    by code_simp
  have d2: "uint ([1, 5, 0, 35, 80 :: byte] ! 0) = 1"
    "\<not> (5 \<le> length [1, 5, 0, 35, 80 :: byte] \<and> [1, 5, 0, 35, 80 :: byte] ! 1 = 0x83)"
    "[1, 5, 0, 35, 80 :: byte] ! 1 \<noteq> 0x03"
    by simp_all
  from validation_order [of "[2, 0x83, 2, 0, 0]" 1] a1 a2
  have A: "fetchHoldingRegisters 1 [2, 0x83, 2, 0, 0] = Inl CrcMismatch" by blast
  from validation_order [of "[2, 3, 0, 208, 240]" 1] b1 b2
  have B: "fetchHoldingRegisters 1 [2, 3, 0, 208, 240]
         = Inl (UnitAddressMismatch 1 (uint ([2, 3, 0, 208, 240 :: byte] ! 0)))" by blast
  from validation_order [of "[1, 0x83, 2, 192, 241]" 1] c1 c2
  have C: "fetchHoldingRegisters 1 [1, 0x83, 2, 192, 241]
         = Inl (ModbusException (uint ([1, 0x83, 2, 192, 241 :: byte] ! 2))
                  (errorMessage (uint ([1, 0x83, 2, 192, 241 :: byte] ! 2))))" by blast
  from validation_order [of "[1, 5, 0, 35, 80]" 1] d1 d2
  have D: "fetchHoldingRegisters 1 [1, 5, 0, 35, 80]
         = Inl (FunctionCodeMismatch 0x03 (uint ([1, 5, 0, 35, 80 :: byte] ! 1)))" by blast
  from a1 a2 A b1 b2 B c1 c2 C d1 d2 D show ?thesis by blast
qed

text \<open>
  C5. A response of at least 5 bytes with a valid checksum, byte 0 equal to the unit
  address and byte 1 equal to \<open>0x83\<close> fails with \<open>ModbusException\<close>; the exception
  carries byte 2 as its code and, as its message, the entry of the 8-entry table for the
  codes 0 to 7 and \<open>Unknown error\<close> for every code from 8 on.
\<close>

theorem exception_response:
  assumes "5 \<le> length r"
    and "readUInt16LE r (int (length r) - 2) = Inr (crc16 (subarray r 0 (- 2)))"
    and "uint (r ! 0) = ua"
    and "r ! 1 = 0x83"
  shows "fetchHoldingRegisters ua r =
     Inl (ModbusException (uint (r ! 2))
       (if uint (r ! 2) = 0 then ''Unknown error''
        else if uint (r ! 2) = 1 then ''Illegal function''
        else if uint (r ! 2) = 2 then ''Illegal data address''
        else if uint (r ! 2) = 3 then ''Illegal data value''
        else if uint (r ! 2) = 4 then ''Slave device failure''
        else if uint (r ! 2) = 5 then ''Acknowledge''
        else if uint (r ! 2) = 6 then ''Slave device busy''
        else if uint (r ! 2) = 7 then ''Memory Parity Error''
        else ''Unknown error''))"
proof -
  have len: "2 \<le> length r" using assms(1) by simp
  have "uint (r ! 1) = 0x83" using assms(4) by simp
  then have "validateResponse ua 0x03 r
      = Inl (ModbusException (uint (r ! 2)) (errorMessage (uint (r ! 2))))"
    using assms(1,3) stored_crc [OF assms(2)] subarray_crc [OF len]
    by (simp add: validateResponse_cases [OF len])
  then have "fetchHoldingRegisters ua r
      = Inl (ModbusException (uint (r ! 2)) (errorMessage (uint (r ! 2))))"
    by (rule fetch_invalid)
  then show ?thesis by (simp only: errorMessage_table [of "uint (r ! 2)"])
qed

theorem exception_response_witness:
  "5 \<le> length [1, 0x83, 2, 192, 241 :: byte]
   \<and> readUInt16LE [1, 0x83, 2, 192, 241] (int (length [1, 0x83, 2, 192, 241 :: byte]) - 2)
         = Inr (crc16 (subarray [1, 0x83, 2, 192, 241] 0 (- 2)))
   \<and> uint ([1, 0x83, 2, 192, 241 :: byte] ! 0) = 1
   \<and> [1, 0x83, 2, 192, 241 :: byte] ! 1 = 0x83
   \<and> fetchHoldingRegisters 1 [1, 0x83, 2, 192, 241]
         = Inl (ModbusException 2 ''Illegal data address'')
   \<and> 5 \<le> length [1, 0x83, 9, 129, 54 :: byte]
   \<and> readUInt16LE [1, 0x83, 9, 129, 54] (int (length [1, 0x83, 9, 129, 54 :: byte]) - 2)
         = Inr (crc16 (subarray [1, 0x83, 9, 129, 54] 0 (- 2)))
   \<and> uint ([1, 0x83, 9, 129, 54 :: byte] ! 0) = 1
   \<and> [1, 0x83, 9, 129, 54 :: byte] ! 1 = 0x83
   \<and> fetchHoldingRegisters 1 [1, 0x83, 9, 129, 54] = Inl (ModbusException 9 ''Unknown error'')"
proof -
  have a: "readUInt16LE [1, 0x83, 2, 192, 241] (int (length [1, 0x83, 2, 192, 241 :: byte]) - 2)
         = Inr (crc16 (subarray [1, 0x83, 2, 192, 241] 0 (- 2)))"
    by code_simp
  have b: "readUInt16LE [1, 0x83, 9, 129, 54] (int (length [1, 0x83, 9, 129, 54 :: byte]) - 2)
         = Inr (crc16 (subarray [1, 0x83, 9, 129, 54] 0 (- 2)))"
    by code_simp
  show ?thesis
    using exception_response [OF _ a, of 1] exception_response [OF _ b, of 1] a b by simp
qed

text \<open>
  C9. On every buffer shorter than 2 bytes \<open>fetchHoldingRegisters\<close> fails with the
  range error of the checksum read at a negative offset. An error other than a range
  error (one of \<open>CrcMismatch\<close>, \<open>UnitAddressMismatch\<close>, \<open>ModbusException\<close>,
  \<open>FunctionCodeMismatch\<close>) is only produced for buffers of at least 2 bytes.
\<close>

theorem short_buffer_range_error:
  "(length r < 2 \<longrightarrow>
      readUInt16LE r (int (length r) - 2) = Inl RangeError
      \<and> fetchHoldingRegisters ua r = Inl RangeError)
   \<and> (\<forall>e. fetchHoldingRegisters ua r = Inl e \<and> e \<noteq> RangeError \<longrightarrow> 2 \<le> length r)"
proof -
  have "fetchHoldingRegisters ua r = Inl RangeError" if "length r < 2"
    using validateResponse_short [OF that] by (rule fetch_invalid)
  then have "length r < 2 \<longrightarrow>
      readUInt16LE r (int (length r) - 2) = Inl RangeError
      \<and> fetchHoldingRegisters ua r = Inl RangeError"
    by (simp add: readUInt16LE_short)
  moreover from this
  have "\<forall>e. fetchHoldingRegisters ua r = Inl e \<and> e \<noteq> RangeError \<longrightarrow> 2 \<le> length r"
    by (cases "length r < 2") auto
  ultimately show ?thesis by blast
qed

theorem short_buffer_range_error_witness:
  "length ([] :: buffer) < 2 \<and> fetchHoldingRegisters 1 [] = Inl RangeError
   \<and> length [7 :: byte] < 2 \<and> fetchHoldingRegisters 1 [7] = Inl RangeError
   \<and> fetchHoldingRegisters 1 [0xFF, 0xFF] = Inl (UnitAddressMismatch 1 255)
   \<and> UnitAddressMismatch 1 255 \<noteq> RangeError \<and> 2 \<le> length [0xFF, 0xFF :: byte]"
proof -
  have a: "fetchHoldingRegisters 1 [0xFF, 0xFF] = Inl (UnitAddressMismatch 1 255)"
    by code_simp
  show ?thesis
    using short_buffer_range_error [of "[]" 1] short_buffer_range_error [of "[7]" 1]
      short_buffer_range_error [of "[0xFF, 0xFF]" 1] a
    by simp
qed

text \<open>
  C3. A response made of the unit address, \<open>0x03\<close>, the byte count \<open>2 * N\<close>, \<open>N\<close> register
  values of 16 bits each in big-endian order and the CRC-16 of all these bytes in
  little-endian order decodes, for a codec with that unit address, to exactly the \<open>N\<close>
  register values in wire order.
\<close>

theorem response_roundtrip:
  assumes count: "uint b2 = 2 * int (length regs)"
    and addr: "uint b0 = ua"
    and body: "body = [b0, 0x03, b2]
                 @ concat (map (\<lambda>x :: 16 word. [ucast (drop_bit 8 x), ucast x :: byte]) regs)"
    and crc: "c = crc16 body"
  shows "fetchHoldingRegisters ua (body @ [word_of_int c, word_of_int (drop_bit 8 c)])
           = Inr (map uint regs)"
proof -
  define payload where
    "payload = concat (map (\<lambda>x :: 16 word. [ucast (drop_bit 8 x), ucast x :: byte]) regs)"
  define r where "r = body @ [word_of_int c, word_of_int (drop_bit 8 c) :: byte]"
  have lp: "length payload = 2 * length regs"
    unfolding payload_def by (rule length_register_bytes)
  have lb: "length body = 3 + 2 * length regs"
    using lp by (simp add: body payload_def)
  have lr: "length r = 5 + 2 * length regs"
    using lb by (simp add: r_def)
  then have len2: "2 \<le> length r" and len3: "3 \<le> length r" by simp_all
  have tk: "take (length r - 2) r = body"
    by (simp add: r_def)
  have lo: "r ! (length r - 2) = word_of_int c"
    and hi: "r ! (length r - 1) = word_of_int (drop_bit 8 c)"
    by (simp_all add: r_def nth_append)
  have c_rng: "0 \<le> c" "c < 65536"
    using crc16_range [of body] crc by simp_all
  have stored: "uint (r ! (length r - 2)) + uint (r ! (length r - 1)) * 2 ^ 8 = crc16 body"
    unfolding lo hi using u16_split [OF c_rng] crc by simp
  have r0: "r ! 0 = b0" and r1: "r ! 1 = 0x03" and r2: "r ! 2 = b2"
    by (simp_all add: r_def body)
  have "validateResponse ua 0x03 r = Inr ()"
    unfolding validateResponse_cases [OF len2] stored tk r0 r1
    using addr by simp
  then have "fetchHoldingRegisters ua r = fetch_loop r (uint (r ! 2)) 0 []"
    using len3 by (rule fetch_valid)
  also have "\<dots> = Inr ([] @ map (\<lambda>k. uint (r ! (nat 0 + 3 + 2 * k)) * 2 ^ 8
                          + uint (r ! (nat 0 + 4 + 2 * k))) [0..<length regs])"
    unfolding r2 by (rule fetch_loop_ok) (simp_all add: count lr)
  also have "map (\<lambda>k. uint (r ! (nat 0 + 3 + 2 * k)) * 2 ^ 8
                          + uint (r ! (nat 0 + 4 + 2 * k))) [0..<length regs] = map uint regs"
  proof (rule nth_equalityI)
    show "length (map (\<lambda>k. uint (r ! (nat 0 + 3 + 2 * k)) * 2 ^ 8
                          + uint (r ! (nat 0 + 4 + 2 * k))) [0..<length regs])
        = length (map uint regs)"
      by simp
  next
    fix k
    assume "k < length (map (\<lambda>k. uint (r ! (nat 0 + 3 + 2 * k)) * 2 ^ 8
                          + uint (r ! (nat 0 + 4 + 2 * k))) [0..<length regs])"
    then have k: "k < length regs" by simp
    have split: "r = [b0, 0x03, b2] @ payload @ [word_of_int c, word_of_int (drop_bit 8 c)]"
      by (simp add: r_def body payload_def)
    have "2 * k < length payload" "2 * k + 1 < length payload"
      using k lp by simp_all
    then have "r ! (3 + 2 * k) = payload ! (2 * k)"
      and "r ! (4 + 2 * k) = payload ! (2 * k + 1)"
      by (simp_all add: split nth_append nth_Cons')
    then have "r ! (3 + 2 * k) = ucast (drop_bit 8 (regs ! k))"
      and "r ! (4 + 2 * k) = ucast (regs ! k)"
      using nth_register_bytes [OF k] by (simp_all add: payload_def)
    then show "map (\<lambda>k. uint (r ! (nat 0 + 3 + 2 * k)) * 2 ^ 8
                          + uint (r ! (nat 0 + 4 + 2 * k))) [0..<length regs] ! k
        = map uint regs ! k"
      using k be16_word [of "regs ! k"] by simp
  qed
  finally show ?thesis by (simp add: r_def)
qed

theorem response_roundtrip_witness:
  "uint (4 :: byte) = 2 * int (length [0x1234, 0xABCD :: 16 word])
   \<and> uint (1 :: byte) = 1
   \<and> fetchHoldingRegisters 1 [1, 0x03, 4, 0x12, 0x34, 0xAB, 0xCD, 0x00, 0x20]
       = Inr [0x1234, 0xABCD]"
proof -
  have c: "crc16 [1, 0x03, 4, 0x12, 0x34, 0xAB, 0xCD] = 0x2000"
    by code_simp
  have h1: "uint (4 :: byte) = 2 * int (length [0x1234, 0xABCD :: 16 word])"
    and h2: "uint (1 :: byte) = 1"
    by simp_all
  have n: "(4660 :: byte) = 52" "(43981 :: byte) = 205" "(8192 :: byte) = 0"
    by simp_all
  from response_roundtrip [OF h1 h2 refl refl]
  show ?thesis by (simp add: n c)
qed

text \<open>
  C8. The byte count (byte 2) is never compared with the length of the frame. Take a
  frame of at least 3 bytes with a valid checksum, byte 0 equal to the unit address and
  byte 1 equal to \<open>0x03\<close>, whatever its byte count and its length are; the loop performs
  one 2-byte read at offset \<open>3 + 2 * k\<close> for every \<open>k\<close> below half the byte count,
  rounded up. If all these reads lie inside the buffer, the call succeeds and returns
  exactly the values read, be the byte count smaller than, equal to or larger than the
  number of register bytes present (the length minus 5); otherwise the call fails with a
  range error. If the byte count exceeds the number of register bytes present and the
  reads lie inside the buffer, a returned value is read from the checksum field (the
  last two bytes).
\<close>

theorem byte_count_unchecked:
  assumes "3 \<le> length r"
    and "readUInt16LE r (int (length r) - 2) = Inr (crc16 (subarray r 0 (- 2)))"
    and "uint (r ! 0) = ua"
    and "r ! 1 = 0x03"
  shows "fetchHoldingRegisters ua r
           = (if 3 + 2 * ((unat (r ! 2) + 1) div 2) \<le> length r
              then Inr (map (\<lambda>k. uint (r ! (3 + 2 * k)) * 2 ^ 8 + uint (r ! (4 + 2 * k)))
                         [0..<(unat (r ! 2) + 1) div 2])
              else Inl RangeError)
       \<and> (length r - 5 < unat (r ! 2) \<and> 3 + 2 * ((unat (r ! 2) + 1) div 2) \<le> length r
          \<longrightarrow> (\<exists>k < (unat (r ! 2) + 1) div 2. length r - 2 \<le> 4 + 2 * k))"
proof -
  define n where "n = (unat (r ! 2) + 1) div 2"
  have len2: "2 \<le> length r" using assms(1) by simp
  have "uint (r ! 1) = 0x03" using assms(4) by simp
  then have "validateResponse ua 0x03 r = Inr ()"
    using assms(3) stored_crc [OF assms(2)] subarray_crc [OF len2]
    by (simp add: validateResponse_cases [OF len2])
  then have fetch: "fetchHoldingRegisters ua r = fetch_loop r (uint (r ! 2)) 0 []"
    using assms(1) by (rule fetch_valid)
  have n_lo: "unat (r ! 2) \<le> 2 * n" and n_hi: "0 < n \<longrightarrow> 2 * n < unat (r ! 2) + 2"
    unfolding n_def by presburger+
  have "int (unat (r ! 2)) \<le> int (2 * n)"
    using n_lo by (simp only: of_nat_le_iff)
  then have i_lo: "uint (r ! 2) \<le> 2 * int n" by simp
  have "0 < n \<longrightarrow> int (2 * n) < int (unat (r ! 2) + 2)"
    using n_hi by (simp only: of_nat_less_iff)
  then have i_hi: "0 < n \<longrightarrow> 2 * int n < uint (r ! 2) + 2" by auto
  have ok: "fetchHoldingRegisters ua r
      = Inr (map (\<lambda>k. uint (r ! (3 + 2 * k)) * 2 ^ 8 + uint (r ! (4 + 2 * k))) [0..<n])"
    if "3 + 2 * n \<le> length r"
  proof -
    have "fetch_loop r (uint (r ! 2)) 0 []
      = Inr ([] @ map (\<lambda>k. uint (r ! (nat 0 + 3 + 2 * k)) * 2 ^ 8
                          + uint (r ! (nat 0 + 4 + 2 * k))) [0..<n])"
      using i_lo i_hi that by (intro fetch_loop_ok) auto
    then show ?thesis using fetch by simp
  qed
  have overlap: "\<exists>k<n. length r - 2 \<le> 4 + 2 * k" if "length r - 5 < unat (r ! 2)"
  proof -
    have "0 < n" using that n_lo by (cases n) simp_all
    then have "n - 1 < n" by simp
    moreover have "length r - 2 \<le> 4 + 2 * (n - 1)"
      using that n_lo \<open>0 < n\<close> by simp
    ultimately show ?thesis by blast
  qed
  have fail: "fetchHoldingRegisters ua r = Inl RangeError"
    if "\<not> 3 + 2 * n \<le> length r"
  proof -
    have "0 < n" using that assms(1) by (cases n) simp_all
    then have "(0::int) + 2 * int (n - 1) < uint (r ! 2)"
      using i_hi by simp
    moreover have "int (length r) < 0 + 2 * int (n - 1) + 5"
      using that \<open>0 < n\<close> by simp
    ultimately have "fetch_loop r (uint (r ! 2)) 0 [] = Inl RangeError"
      by (intro fetch_loop_fail [where k = "n - 1"]) simp_all
    then show ?thesis using fetch by simp
  qed
  have "fetchHoldingRegisters ua r
           = (if 3 + 2 * n \<le> length r
              then Inr (map (\<lambda>k. uint (r ! (3 + 2 * k)) * 2 ^ 8 + uint (r ! (4 + 2 * k)))
                         [0..<n])
              else Inl RangeError)"
    using ok fail by simp
  with overlap show ?thesis unfolding n_def by blast
qed

theorem byte_count_unchecked_witness:
  "3 \<le> length [1, 0x03, 2, 161, 49 :: byte]
   \<and> readUInt16LE [1, 0x03, 2, 161, 49] (int (length [1, 0x03, 2, 161, 49 :: byte]) - 2)
       = Inr (crc16 (subarray [1, 0x03, 2, 161, 49] 0 (- 2)))
   \<and> fetchHoldingRegisters 1 [1, 0x03, 2, 161, 49] = Inr [161 * 2 ^ 8 + 49]
   \<and> 3 \<le> length [1, 0x03, 4, 33, 51 :: byte]
   \<and> readUInt16LE [1, 0x03, 4, 33, 51] (int (length [1, 0x03, 4, 33, 51 :: byte]) - 2)
       = Inr (crc16 (subarray [1, 0x03, 4, 33, 51] 0 (- 2)))
   \<and> fetchHoldingRegisters 1 [1, 0x03, 4, 33, 51] = Inl RangeError
   \<and> 3 \<le> length [1, 0x03, 3, 170, 187, 204, 221, 139, 87 :: byte]
   \<and> readUInt16LE [1, 0x03, 3, 170, 187, 204, 221, 139, 87]
         (int (length [1, 0x03, 3, 170, 187, 204, 221, 139, 87 :: byte]) - 2)
       = Inr (crc16 (subarray [1, 0x03, 3, 170, 187, 204, 221, 139, 87] 0 (- 2)))
   \<and> fetchHoldingRegisters 1 [1, 0x03, 3, 170, 187, 204, 221, 139, 87]
       = Inr [170 * 2 ^ 8 + 187, 204 * 2 ^ 8 + 221]"
proof -
  have a: "readUInt16LE [1, 0x03, 2, 161, 49] (int (length [1, 0x03, 2, 161, 49 :: byte]) - 2)
       = Inr (crc16 (subarray [1, 0x03, 2, 161, 49] 0 (- 2)))"
    by code_simp
  have b: "readUInt16LE [1, 0x03, 4, 33, 51] (int (length [1, 0x03, 4, 33, 51 :: byte]) - 2)
       = Inr (crc16 (subarray [1, 0x03, 4, 33, 51] 0 (- 2)))"
    by code_simp
  have c: "readUInt16LE [1, 0x03, 3, 170, 187, 204, 221, 139, 87]
         (int (length [1, 0x03, 3, 170, 187, 204, 221, 139, 87 :: byte]) - 2)
       = Inr (crc16 (subarray [1, 0x03, 3, 170, 187, 204, 221, 139, 87] 0 (- 2)))"
    by code_simp
  have A: "fetchHoldingRegisters 1 [1, 0x03, 2, 161, 49] = Inr [161 * 2 ^ 8 + 49]"
    using byte_count_unchecked [OF _ a, of 1] by simp
  have B: "fetchHoldingRegisters 1 [1, 0x03, 4, 33, 51] = Inl RangeError"
    using byte_count_unchecked [OF _ b, of 1] by simp
  have C: "fetchHoldingRegisters 1 [1, 0x03, 3, 170, 187, 204, 221, 139, 87]
       = Inr [170 * 2 ^ 8 + 187, 204 * 2 ^ 8 + 221]"
    using byte_count_unchecked [OF _ c, of 1] by (simp add: upt_rec)
  from a b c A B C show ?thesis by simp
qed

text \<open>
  C6. Take a response whose trailing checksum is correct, and replace the byte at any
  one position by a different value, leaving every other byte (the checksum included)
  as it is: \<open>fetchHoldingRegisters\<close> fails on the result with \<open>CrcMismatch\<close>.
\<close>

theorem single_byte_mutation:
  assumes valid: "readUInt16LE r (int (length r) - 2) = Inr (crc16 (subarray r 0 (- 2)))"
    and i: "i < length r"
    and v: "v \<noteq> r ! i"
  shows "fetchHoldingRegisters ua (r[i := v]) = Inl CrcMismatch"
proof -
  have len: "2 \<le> length r" using valid by (rule readUInt16LE_Inr_length)
  then have len': "2 \<le> length (r[i := v])" by simp
  have stored: "uint (r ! (length r - 2)) + uint (r ! (length r - 1)) * 2 ^ 8
      = crc16 (take (length r - 2) r)"
    using stored_crc [OF valid] subarray_crc [OF len] by simp
  have uv: "uint v \<noteq> uint (r ! i)" using v by (simp add: word_uint_eq_iff)
  have "uint (r[i := v] ! (length r - 2)) + uint (r[i := v] ! (length r - 1)) * 2 ^ 8
      \<noteq> crc16 (take (length r - 2) (r[i := v]))"
  proof (cases "i < length r - 2")
    case True
    then have "take (length r - 2) (r[i := v]) = (take (length r - 2) r)[i := v]"
      by (simp add: take_update_swap)
    moreover have "crc16 ((take (length r - 2) r)[i := v]) \<noteq> crc16 (take (length r - 2) r)"
      using True v by (intro crc16_update) simp_all
    moreover have "r[i := v] ! (length r - 2) = r ! (length r - 2)"
      and "r[i := v] ! (length r - 1) = r ! (length r - 1)"
      using True by simp_all
    ultimately show ?thesis using stored by simp
  next
    case False
    then have tk: "take (length r - 2) (r[i := v]) = take (length r - 2) r"
      by simp
    from False i len consider "i = length r - 2" | "i = length r - 1" by linarith
    then show ?thesis
    proof cases
      case 1
      then have "r[i := v] ! (length r - 2) = v"
        and "r[i := v] ! (length r - 1) = r ! (length r - 1)"
        using i len by simp_all
      then show ?thesis using stored uv 1 tk by simp
    next
      case 2
      then have "r[i := v] ! (length r - 1) = v"
        and "r[i := v] ! (length r - 2) = r ! (length r - 2)"
        using i len by simp_all
      then show ?thesis using stored uv 2 tk by simp
    qed
  qed
  then have "validateResponse ua 0x03 (r[i := v]) = Inl CrcMismatch"
    by (simp add: validateResponse_cases [OF len'])
  then show ?thesis by (rule fetch_invalid)
qed

theorem single_byte_mutation_witness:
  "readUInt16LE [1, 0x03, 2, 0, 5, 120, 71] (int (length [1, 0x03, 2, 0, 5, 120, 71 :: byte]) - 2)
       = Inr (crc16 (subarray [1, 0x03, 2, 0, 5, 120, 71] 0 (- 2)))
   \<and> 4 < length [1, 0x03, 2, 0, 5, 120, 71 :: byte]
   \<and> (6 :: byte) \<noteq> [1, 0x03, 2, 0, 5, 120, 71] ! 4
   \<and> fetchHoldingRegisters 1 [1, 0x03, 2, 0, 6, 120, 71] = Inl CrcMismatch"
proof -
  have a: "readUInt16LE [1, 0x03, 2, 0, 5, 120, 71]
        (int (length [1, 0x03, 2, 0, 5, 120, 71 :: byte]) - 2)
       = Inr (crc16 (subarray [1, 0x03, 2, 0, 5, 120, 71] 0 (- 2)))"
    by code_simp
  have b: "4 < length [1, 0x03, 2, 0, 5, 120, 71 :: byte]"
    and c: "(6 :: byte) \<noteq> [1, 0x03, 2, 0, 5, 120, 71] ! 4"
    by simp_all
  from single_byte_mutation [OF a b c, of 1] a b c show ?thesis by simp
qed

section \<open>Claims about the frame builder\<close>

text \<open>
  C2, as stated: for all 16-bit register addresses \<open>a \<le> b\<close> the request is 8 bytes
  with the unit address, \<open>0x03\<close>, \<open>a\<close>, \<open>b - a + 1\<close> and the checksum. This fails for
  \<open>a = 0\<close> and \<open>b = 0xFFFF\<close>: the count \<open>0x10000\<close> does not fit the 16-bit field, and
  the write of the count raises a range error.
\<close>

theorem request_layout_counterexample:
  "(0 :: int) \<le> 0xFFFF \<and> requestHoldingRegisters 1 0 0xFFFF = Inl RangeError"
  by (simp add: request_count_overflow)

text \<open>
  C2, amended: for a unit address of 8 bits and all 16-bit register addresses \<open>a \<le> b\<close>
  whose count \<open>b - a + 1\<close> is at most \<open>0xFFFF\<close>, the request is exactly 8 bytes: byte 0
  is the unit address, byte 1 is \<open>0x03\<close>, bytes 2-3 are \<open>a\<close> big-endian, bytes 4-5 are
  \<open>b - a + 1\<close> big-endian, and bytes 6-7 are the \<open>crc16\<close> of the first 6 bytes,
  little-endian.
\<close>

theorem request_layout:
  assumes "0 \<le> ua" "ua \<le> 0xFF" "0 \<le> a" "a \<le> b" "b \<le> 0xFFFF" "b - a + 1 \<le> 0xFFFF"
  shows "\<exists>buf. requestHoldingRegisters ua a b = Inr buf
           \<and> length buf = 8
           \<and> readUInt8 buf 0 = Inr ua
           \<and> readUInt8 buf 1 = Inr 0x03
           \<and> readUInt16BE buf 2 = Inr a
           \<and> readUInt16BE buf 4 = Inr (b - a + 1)
           \<and> readUInt16LE buf 6 = Inr (crc16 (take 6 buf))"
proof -
  define hdr :: buffer where
    "hdr = [word_of_int ua, 0x03, word_of_int (drop_bit 8 a), word_of_int a,
            word_of_int (drop_bit 8 (b - a + 1)), word_of_int (b - a + 1)]"
  define buf where
    "buf = hdr @ [word_of_int (crc16 hdr), word_of_int (drop_bit 8 (crc16 hdr))]"
  have a: "0 \<le> a" "a \<le> 0xFFFF" and n: "0 \<le> b - a + 1" "b - a + 1 \<le> 0xFFFF"
    using assms by simp_all
  have c: "0 \<le> crc16 hdr" "crc16 hdr < 65536"
    using crc16_range [of hdr] by simp_all
  have req: "requestHoldingRegisters ua a b = Inr buf"
    unfolding buf_def using assms(1,2) a n hdr_def by (rule request_frame)
  have l: "length buf = 8" by (simp add: buf_def hdr_def)
  have r0: "readUInt8 buf 0 = Inr ua"
    using uint_byte_of_int [OF assms(1,2)] by (simp add: readUInt8_def buf_def hdr_def)
  have r1: "readUInt8 buf 1 = Inr 0x03"
    by (simp add: readUInt8_def buf_def hdr_def)
  have r2: "readUInt16BE buf 2 = Inr a"
    using u16_split_be [OF a] by (simp add: readUInt16BE_def buf_def hdr_def numeral_eq_Suc)
  have r4: "readUInt16BE buf 4 = Inr (b - a + 1)"
    using u16_split_be [OF n] by (simp add: readUInt16BE_def buf_def hdr_def numeral_eq_Suc)
  have tk: "take 6 buf = hdr" by (simp add: buf_def hdr_def)
  have "readUInt16LE buf 6
      = Inr (uint (word_of_int (crc16 hdr) :: byte)
             + uint (word_of_int (drop_bit 8 (crc16 hdr)) :: byte) * 2 ^ 8)"
    by (simp add: readUInt16LE_def buf_def hdr_def numeral_eq_Suc)
  then have r6: "readUInt16LE buf 6 = Inr (crc16 (take 6 buf))"
    using u16_split [OF c] tk by simp
  from req l r0 r1 r2 r4 r6 show ?thesis by blast
qed

theorem request_layout_witness:
  "(0 :: int) \<le> 1 \<and> (1 :: int) \<le> 0xFF \<and> (0 :: int) \<le> 0 \<and> (0 :: int) \<le> 9
   \<and> (9 :: int) \<le> 0xFFFF \<and> (9 :: int) - 0 + 1 \<le> 0xFFFF
   \<and> (\<exists>buf. requestHoldingRegisters 1 0 9 = Inr buf
           \<and> length buf = 8
           \<and> readUInt8 buf 0 = Inr 1
           \<and> readUInt8 buf 1 = Inr 0x03
           \<and> readUInt16BE buf 2 = Inr 0
           \<and> readUInt16BE buf 4 = Inr 10
           \<and> readUInt16LE buf 6 = Inr (crc16 (take 6 buf)))"
  using request_layout [of 1 0 9] by simp

text \<open>
  C7, as stated: \<open>requestHoldingRegisters\<close> returns a frame for every pair of 16-bit
  values with \<open>lastRegister \<ge> firstRegister\<close>. This fails for the pair \<open>0\<close>, \<open>0xFFFF\<close>,
  where the call raises a range error.
\<close>

theorem request_total_counterexample:
  "(0 :: int) \<le> 0 \<and> (0 :: int) \<le> 0xFFFF \<and> (0xFFFF :: int) \<le> 0xFFFF
   \<and> requestHoldingRegisters 17 0 0xFFFF = Inl RangeError"
  by (simp add: request_count_overflow)

text \<open>
  C7, amended: for a unit address of 8 bits, every 16-bit \<open>firstRegister\<close> and every
  register count \<open>n\<close> from 1 to \<open>0xFFFF\<close> with \<open>lastRegister = firstRegister + n - 1\<close> a
  16-bit value, \<open>requestHoldingRegisters\<close> returns a frame, which carries the count \<open>n\<close>;
  there is no cap at 125 registers, so the counts 1, 125, 126 and any larger one up to
  \<open>0xFFFF\<close> encode.
\<close>

theorem request_no_cap:
  assumes "0 \<le> ua" "ua \<le> 0xFF" "0 \<le> a" "1 \<le> n" "n \<le> 0xFFFF" "a + n - 1 \<le> 0xFFFF"
  shows "\<exists>buf. requestHoldingRegisters ua a (a + n - 1) = Inr buf
           \<and> readUInt16BE buf 4 = Inr n"
proof -
  define hdr :: buffer where
    "hdr = [word_of_int ua, 0x03, word_of_int (drop_bit 8 a), word_of_int a,
            word_of_int (drop_bit 8 (a + n - 1 - a + 1)), word_of_int (a + n - 1 - a + 1)]"
  define buf where
    "buf = hdr @ [word_of_int (crc16 hdr), word_of_int (drop_bit 8 (crc16 hdr))]"
  have a: "0 \<le> a" "a \<le> 0xFFFF" and n: "0 \<le> a + n - 1 - a + 1" "a + n - 1 - a + 1 \<le> 0xFFFF"
    and n': "0 \<le> n" "n \<le> 0xFFFF"
    using assms by simp_all
  have req: "requestHoldingRegisters ua a (a + n - 1) = Inr buf"
    unfolding buf_def using assms(1,2) a n hdr_def by (rule request_frame)
  have "readUInt16BE buf 4 = Inr n"
    using u16_split_be [OF n'] by (simp add: readUInt16BE_def buf_def hdr_def numeral_eq_Suc)
  with req show ?thesis by blast
qed

theorem request_no_cap_witness:
  "(\<exists>buf. requestHoldingRegisters 1 0 (0 + 1 - 1) = Inr buf \<and> readUInt16BE buf 4 = Inr 1)
   \<and> (\<exists>buf. requestHoldingRegisters 1 0 (0 + 125 - 1) = Inr buf \<and> readUInt16BE buf 4 = Inr 125)
   \<and> (\<exists>buf. requestHoldingRegisters 1 0 (0 + 126 - 1) = Inr buf \<and> readUInt16BE buf 4 = Inr 126)
   \<and> (\<exists>buf. requestHoldingRegisters 1 0 (0 + 0xFFFF - 1) = Inr buf
         \<and> readUInt16BE buf 4 = Inr 0xFFFF)"
proof -
  have h: "(0 :: int) \<le> 1" "(1 :: int) \<le> 0xFF" "(0 :: int) \<le> 0" by simp_all
  have 1: "\<exists>buf. requestHoldingRegisters 1 0 (0 + 1 - 1) = Inr buf \<and> readUInt16BE buf 4 = Inr 1"
    by (rule request_no_cap [OF h]) simp_all
  have 2: "\<exists>buf. requestHoldingRegisters 1 0 (0 + 125 - 1) = Inr buf
      \<and> readUInt16BE buf 4 = Inr 125"
    by (rule request_no_cap [OF h]) simp_all
  have 3: "\<exists>buf. requestHoldingRegisters 1 0 (0 + 126 - 1) = Inr buf
      \<and> readUInt16BE buf 4 = Inr 126"
    by (rule request_no_cap [OF h]) simp_all
  have 4: "\<exists>buf. requestHoldingRegisters 1 0 (0 + 0xFFFF - 1) = Inr buf
      \<and> readUInt16BE buf 4 = Inr 0xFFFF"
    by (rule request_no_cap [OF h]) simp_all
  from 1 2 3 4 show ?thesis by blast
qed

end
